theory Spec2Isabelle
  imports Complex_Main
begin

section \<open>Values handled by connection\_base.js\<close>

text \<open>
  Times, time budgets and counters are JavaScript numbers; the model takes the
  integral ones as \<open>int\<close> (milliseconds) and the sweep delay, which the code
  rounds explicitly, as \<open>real\<close>. Operation IDs are frame numbers, \<open>nat\<close>.
\<close>

text \<open>
  A request object, as far as this file reads it: \<open>req.id\<close> and \<open>req.ttl\<close>.
\<close>

record request =
  req_id :: nat
  ttl :: int

text \<open>
  Modelled from the spec: \<open>OutgoingResponse.States\<close> (outgoing\_response.js is not
  part of the sources). The spec gives a response "a lifecycle state (at least
  \<open>Initial\<close> and later states)".
\<close>

datatype res_state = Initial | Later nat

text \<open>
  Modelled from the spec: the error constructors of errors.js (not part of the
  sources). \<open>err.type\<close> is what the code inspects; the two type strings it
  compares against are taken from the source (\<open>'tchannel.socket-closed'\<close>,
  \<open>'tchannel.timeout-error'\<close>). \<open>Error\<close> is JavaScript's plain
  \<open>new Error(message)\<close>, which has no \<open>type\<close>; \<open>TypedError\<close> is any other
  typed error (type, message); \<open>TypeError\<close> is the one the runtime throws on a
  property read of \<open>undefined\<close>.
\<close>

datatype js_error =
    TimeoutError nat int int int
  | SocketClosedError string
  | ResponseAlreadyStarted res_state
  | Error string
  | TypedError string string
  | TypeError string

fun err_type :: "js_error \<Rightarrow> string option" where
  "err_type (TimeoutError i st el tmo) = Some ''tchannel.timeout-error''"
| "err_type (SocketClosedError reason) = Some ''tchannel.socket-closed''"
| "err_type (ResponseAlreadyStarted st) = Some ''tchannel.response-already-started''"
| "err_type (Error msg) = None"
| "err_type (TypedError t msg) = Some t"
| "err_type (TypeError msg) = None"

text \<open>
  A call either returns or throws; a throw leaves the mutations made so far in
  place, so both carry the state.
\<close>

datatype 'a outcome = Returns 'a | Throws js_error 'a

fun state_of :: "'a outcome \<Rightarrow> 'a" where
  "state_of (Returns s) = s"
| "state_of (Throws e s) = s"

fun returned :: "'a outcome \<Rightarrow> bool" where
  "returned (Returns s) = True"
| "returned (Throws e s) = False"

subsection \<open>Operation records\<close>

text \<open>
  Modelled from the spec: \<open>TChannelClientOp\<close> (client\_op.js is not part of the
  sources): "the request object, start timestamp, a \<open>timedOut\<close> boolean
  (default false)".
\<close>

record client_op =
  op_req :: request
  op_start :: int
  timedOut :: bool

definition TChannelClientOp :: "request \<Rightarrow> int \<Rightarrow> client_op" where
  "TChannelClientOp req start = \<lparr>op_req = req, op_start = start, timedOut = False\<rparr>"

datatype callback = OpDone | HandleSpanFromRes

text \<open>
  A response object: an allocation number (its identity), its lifecycle state and
  the listeners registered on it with \<open>res.on(name, callback)\<close>.
\<close>

record response =
  res_oid :: nat
  res_state :: res_state
  res_on :: "(string \<times> callback) list"

text \<open>
  Modelled from the spec: \<open>TChannelServerOp\<close> (server\_op.js is not part of the
  sources): "the request object, start timestamp, an associated response object
  (created lazily, at most once)". The code compares server operations by object
  identity (\<open>self.inOps[id] !== op\<close>), so each record carries the number of its
  allocation, \<open>sop_oid\<close>.
\<close>

record server_op =
  sop_oid :: nat
  sop_start :: int
  sop_req :: request
  sop_res :: "response option"

definition TChannelServerOp :: "nat \<Rightarrow> int \<Rightarrow> request \<Rightarrow> server_op" where
  "TChannelServerOp oid start req =
     \<lparr>sop_oid = oid, sop_start = start, sop_req = req, sop_res = None\<rparr>"

subsection \<open>Operation tables\<close>

text \<open>
  \<open>inOps\<close> and \<open>outOps\<close> are plain objects (\<open>Object.create(null)\<close>) keyed by
  operation ID. A property may hold \<open>undefined\<close> (slot \<open>None\<close>), which is different
  from the property being absent. \<open>Object.keys\<close> lists integer keys in ascending
  order, so a table is kept as a list of (key, slot) pairs ascending by key.
\<close>

type_synonym 'v table = "(nat \<times> 'v option) list"

definition Object_keys :: "'v table \<Rightarrow> nat list" where
  "Object_keys t = map fst t"

text \<open>\<open>ops[id]\<close>: \<open>undefined\<close> for an absent key and for a slot holding \<open>undefined\<close>.\<close>

definition lookup :: "'v table \<Rightarrow> nat \<Rightarrow> 'v option" where
  "lookup t k = (case map_of t k of None \<Rightarrow> None | Some slot \<Rightarrow> slot)"

text \<open>\<open>ops[id] = v\<close>\<close>

fun store :: "'v table \<Rightarrow> nat \<Rightarrow> 'v option \<Rightarrow> 'v table" where
  "store [] k v = [(k, v)]"
| "store ((k', v') # t) k v =
     (if k < k' then (k, v) # (k', v') # t
      else if k = k' then (k, v) # t
      else (k', v') # store t k v)"

text \<open>\<open>delete ops[id]\<close>\<close>

definition delete :: "'v table \<Rightarrow> nat \<Rightarrow> 'v table" where
  "delete t k = filter (\<lambda>e. fst e \<noteq> k) t"

text \<open>The operation records a table holds, in key order.\<close>

definition records :: "'v table \<Rightarrow> 'v list" where
  "records t = List.map_filter snd t"

text \<open>
  A list of pairs represents an object when its keys are strictly ascending; it is
  \<open>live\<close> when no slot holds \<open>undefined\<close>.
\<close>

definition wf_table :: "'v table \<Rightarrow> bool" where
  "wf_table t = sorted_wrt (<) (Object_keys t)"

definition live :: "'v table \<Rightarrow> bool" where
  "live t = list_all (\<lambda>e. snd e \<noteq> None) t"

section \<open>The connection\<close>

datatype conn_event = TimedOutEvent | ErrorEvent js_error

datatype log_level = Info | Warn

datatype recipient = OutReq request | InReq request

text \<open>
  The fields of \<open>TChannelConnectionBase\<close> that the code reads or writes, followed by
  what its collaborators observe: the calls of \<open>self.emit\<close>, in order,
  the errors delivered with \<open>req.emit('error', err)\<close>, the log lines (severity and
  message; the attached details play no part in what follows), and the calls
  made to \<open>timers.setTimeout\<close> (the delays, in call order; a timer handle is the
  position of its call) and \<open>timers.clearTimeout\<close>. \<open>next_oid\<close> numbers the
  server operations allocated with \<open>new\<close>. The connection inherits from
  \<open>EventEmitter\<close>; \<open>error_listeners\<close> is the number of listeners its owner has
  registered for \<open>'error'\<close>.
\<close>

record conn =
  timeoutCheckInterval :: real
  timeoutFuzz :: real
  timer :: "nat option"
  inOps :: "server_op table"
  outOps :: "client_op table"
  pending_in :: int
  pending_out :: int
  lastTimeoutTime :: int
  closing :: bool
  emitted :: "conn_event list"
  delivered :: "(recipient \<times> js_error) list"
  logs :: "(log_level \<times> string) list"
  scheduled :: "real list"
  cleared :: "nat list"
  next_oid :: nat
  error_listeners :: nat

definition DEFAULT_OUTGOING_REQ_TIMEOUT :: int where
  "DEFAULT_OUTGOING_REQ_TIMEOUT = 2000"

subsection \<open>The sweep timer\<close>

definition Math_floor :: "real \<Rightarrow> real" where
  "Math_floor x = of_int \<lfloor>x\<rfloor>"

text \<open>\<open>Math.round\<close> rounds to the nearest integer, a half towards \<open>+\<infinity>\<close>.\<close>

definition Math_round :: "real \<Rightarrow> real" where
  "Math_round x = of_int \<lfloor>x + 1 / 2\<rfloor>"

text \<open>
  \<open>getTimeoutDelay\<close>, on the base interval and fuzz width of the options and the
  draw \<open>r\<close> that \<open>self.random()\<close> returns.
\<close>

definition timeoutDelay :: "real \<Rightarrow> real \<Rightarrow> real \<Rightarrow> real" where
  "timeoutDelay base fuzz r = base + Math_round (Math_floor (r * fuzz) - (fuzz / 2))"

definition getTimeoutDelay :: "real \<Rightarrow> conn \<Rightarrow> real" where
  "getTimeoutDelay r s = timeoutDelay (timeoutCheckInterval s) (timeoutFuzz s) r"

definition startTimeoutTimer :: "real \<Rightarrow> conn \<Rightarrow> conn" where
  "startTimeoutTimer r s =
     s\<lparr>timer := Some (length (scheduled s)),
       scheduled := scheduled s @ [getTimeoutDelay r s]\<rparr>"

definition clearTimeoutTimer :: "conn \<Rightarrow> conn" where
  "clearTimeoutTimer s =
     (case timer s of
        Some h \<Rightarrow> s\<lparr>cleared := cleared s @ [h], timer := None\<rparr>
      | None \<Rightarrow> s)"

text \<open>The constructor, on the channel's options and the first random draw.\<close>

definition TChannelConnectionBase :: "real \<Rightarrow> real \<Rightarrow> real \<Rightarrow> conn" where
  "TChannelConnectionBase base fuzz r =
     startTimeoutTimer r
       \<lparr>timeoutCheckInterval = base, timeoutFuzz = fuzz, timer = None,
        inOps = [], outOps = [], pending_in = 0, pending_out = 0,
        lastTimeoutTime = 0, closing = False,
        emitted = [], delivered = [], logs = [], scheduled = [], cleared = [],
        next_oid = 0, error_listeners = 0\<rparr>"

subsection \<open>Notifications\<close>

text \<open>\<open>self.on('error', listener)\<close>, inherited from \<open>EventEmitter\<close>.\<close>

definition on_error :: "conn \<Rightarrow> conn" where
  "on_error s = s\<lparr>error_listeners := error_listeners s + 1\<rparr>"

text \<open>
  \<open>self.emit('error', err)\<close>. An \<open>EventEmitter\<close> that has no listener for \<open>'error'\<close>
  throws the error it is asked to emit; with a listener the call returns. What a
  listener does is its owner's.
\<close>

definition emit_error :: "js_error \<Rightarrow> conn \<Rightarrow> conn outcome" where
  "emit_error err s =
     (let s1 = s\<lparr>emitted := emitted s @ [ErrorEvent err]\<rparr>
      in if error_listeners s = 0 then Throws err s1 else Returns s1)"

subsection \<open>Timeout sweeps\<close>

text \<open>
  \<open>timers.now()\<close> is read at the start of each sweep and again inside
  \<open>onReqTimeout\<close>; a sweep is one synchronous turn, and the model gives all its
  reads the same value \<open>now\<close>.
\<close>

definition onReqTimeout :: "client_op \<Rightarrow> int \<Rightarrow> conn \<Rightarrow> client_op \<times> conn" where
  "onReqTimeout op now s =
     (op\<lparr>timedOut := True\<rparr>,
      s\<lparr>delivered := delivered s @
           [(OutReq (op_req op),
             TimeoutError (req_id (op_req op)) (op_start op) (now - op_start op)
               (ttl (op_req op)))],
        lastTimeoutTime := now\<rparr>)"

text \<open>
  The loop of \<open>checkInOpsForTimeout\<close> over the keys listed before it starts. The
  table \<open>ops\<close> is the argument of the call and is threaded beside the connection,
  whose \<open>pending.in\<close> the loop decrements.
\<close>

fun checkIn_loop ::
  "nat list \<Rightarrow> int \<Rightarrow> server_op table \<times> conn \<Rightarrow> server_op table \<times> conn" where
  "checkIn_loop [] now (ops, s) = (ops, s)"
| "checkIn_loop (i # ks) now (ops, s) =
     (case lookup ops i of
        None \<Rightarrow> checkIn_loop ks now (ops, s)
      | Some op \<Rightarrow>
          (let duration = now - sop_start op in
           if duration > ttl (sop_req op)
           then checkIn_loop ks now (delete ops i, s\<lparr>pending_in := pending_in s - 1\<rparr>)
           else checkIn_loop ks now (ops, s)))"

definition checkInOpsForTimeout ::
  "server_op table \<Rightarrow> int \<Rightarrow> conn \<Rightarrow> server_op table \<times> conn" where
  "checkInOpsForTimeout ops now s = checkIn_loop (Object_keys ops) now (ops, s)"

text \<open>
  The loop of \<open>checkOutOpsForTimeout\<close>. Its first statement on a slot reads
  \<open>op.timedOut\<close>, which throws a \<open>TypeError\<close> when \<open>op\<close> is \<open>undefined\<close>; the test
  \<open>op === undefined\<close> comes after it and is kept here in its place.
\<close>

fun checkOut_loop ::
  "nat list \<Rightarrow> int \<Rightarrow> client_op table \<times> conn \<Rightarrow> (client_op table \<times> conn) outcome" where
  "checkOut_loop [] now (ops, s) = Returns (ops, s)"
| "checkOut_loop (i # ks) now (ops, s) =
     (case lookup ops i of
        None \<Rightarrow> Throws (TypeError ''Cannot read property 'timedOut' of undefined'') (ops, s)
      | Some op \<Rightarrow>
          if timedOut op
          then checkOut_loop ks now
                 (delete ops i,
                  s\<lparr>pending_out := pending_out s - 1,
                    logs := logs s @ [(Warn, ''lingering timed-out outgoing operation'')]\<rparr>)
          else if lookup ops i = None
          then checkOut_loop ks now
                 (ops, s\<lparr>logs := logs s @ [(Warn, ''unexpected undefined operation'')]\<rparr>)
          else (let duration = now - op_start op in
                if duration > ttl (op_req op)
                then checkOut_loop ks now
                       (delete ops i,
                        snd (onReqTimeout op now (s\<lparr>pending_out := pending_out s - 1\<rparr>)))
                else checkOut_loop ks now (ops, s)))"

definition checkOutOpsForTimeout ::
  "client_op table \<Rightarrow> int \<Rightarrow> conn \<Rightarrow> (client_op table \<times> conn) outcome" where
  "checkOutOpsForTimeout ops now s = checkOut_loop (Object_keys ops) now (ops, s)"

text \<open>
  \<open>onTimeoutCheck\<close> passes \<open>self.outOps\<close> and \<open>self.inOps\<close> themselves to the sweeps,
  so the tables the sweeps return are the connection's. \<open>r\<close> is the random draw of
  the rearming \<open>startTimeoutTimer\<close>. An exception of the outgoing sweep leaves
  \<open>onTimeoutCheck\<close> at once.
\<close>

definition onTimeoutCheck :: "int \<Rightarrow> real \<Rightarrow> conn \<Rightarrow> conn outcome" where
  "onTimeoutCheck now r s =
     (if closing s then Returns s
      else if lastTimeoutTime s \<noteq> 0
      then Returns (s\<lparr>emitted := emitted s @ [TimedOutEvent]\<rparr>)
      else (case checkOutOpsForTimeout (outOps s) now s of
              Throws e (ops, s1) \<Rightarrow> Throws e (s1\<lparr>outOps := ops\<rparr>)
            | Returns (ops, s1) \<Rightarrow>
                (let s2 = s1\<lparr>outOps := ops\<rparr>;
                     (iops, s3) = checkInOpsForTimeout (inOps s2) now s2
                 in Returns (startTimeoutTimer r (s3\<lparr>inOps := iops\<rparr>)))))"

subsection \<open>Teardown\<close>

text \<open>\<open>inOpKeys.forEach(eachInOp)\<close>\<close>

fun eachInOp :: "nat list \<Rightarrow> conn \<Rightarrow> conn" where
  "eachInOp [] s = s"
| "eachInOp (i # ks) s = eachInOp ks (s\<lparr>inOps := delete (inOps s) i\<rparr>)"

text \<open>
  \<open>outOpKeys.forEach(eachOutOp)\<close>; \<open>op.req\<close> throws a \<open>TypeError\<close> when the slot holds
  \<open>undefined\<close>, after the \<open>delete\<close>.
\<close>

fun eachOutOp :: "nat list \<Rightarrow> js_error \<Rightarrow> conn \<Rightarrow> conn outcome" where
  "eachOutOp [] err s = Returns s"
| "eachOutOp (i # ks) err s =
     (let op = lookup (outOps s) i;
          s1 = s\<lparr>outOps := delete (outOps s) i\<rparr>
      in case op of
           None \<Rightarrow> Throws (TypeError ''Cannot read property 'req' of undefined'') s1
         | Some op \<Rightarrow>
             eachOutOp ks err (s1\<lparr>delivered := delivered s1 @ [(OutReq (op_req op), err)]\<rparr>))"

text \<open>
  \<open>resetAll(err)\<close>; a falsy \<open>err\<close> is \<open>None\<close>. An exception of \<open>self.emit\<close> leaves
  \<open>resetAll\<close> before the tables are drained.
\<close>

definition reset_error :: "js_error option \<Rightarrow> js_error" where
  "reset_error err = (case err of None \<Rightarrow> Error ''unknown connection reset'' | Some e \<Rightarrow> e)"

definition isError :: "js_error \<Rightarrow> bool" where
  "isError err = (err_type err \<noteq> Some ''tchannel.socket-closed'')"

definition resetAll :: "js_error option \<Rightarrow> conn \<Rightarrow> conn outcome" where
  "resetAll err0 s0 =
     (let s = clearTimeoutTimer s0 in
      if closing s then Returns s
      else
        (let s1 = s\<lparr>closing := True\<rparr>;
             inOpKeys = Object_keys (inOps s1);
             outOpKeys = Object_keys (outOps s1);
             err = reset_error err0;
             s2 = s1\<lparr>logs := logs s1 @
                    [(if isError err then Warn else Info, ''resetting connection'')]\<rparr>
         in case (if isError err then emit_error err s2 else Returns s2) of
              Throws e s3 \<Rightarrow> Throws e s3
            | Returns s3 \<Rightarrow>
                (let s4 = eachInOp inOpKeys s3
                 in case eachOutOp outOpKeys err s4 of
                      Throws e s5 \<Rightarrow> Throws e s5
                    | Returns s5 \<Rightarrow> Returns (s5\<lparr>pending_in := 0, pending_out := 0\<rparr>))))"

text \<open>\<open>close(callback)\<close>; the callback is the caller's.\<close>

definition close :: "conn \<Rightarrow> conn outcome" where
  "close s = resetAll (Some (SocketClosedError ''local close'')) s"

subsection \<open>Admission and removal\<close>

definition popOutOp :: "nat \<Rightarrow> conn \<Rightarrow> client_op option \<times> conn" where
  "popOutOp i s =
     (case lookup (outOps s) i of
        None \<Rightarrow> (None, s)
      | Some op \<Rightarrow>
          (Some op, s\<lparr>outOps := delete (outOps s) i, pending_out := pending_out s - 1\<rparr>))"

text \<open>
  The options of \<open>request\<close>, as far as the bookkeeping reads them: \<open>timeout\<close>, absent
  (\<open>None\<close>) or a number. \<open>a || b\<close> on a number is \<open>b\<close> when \<open>a\<close> is absent or \<open>0\<close>.
\<close>

record options =
  timeout :: "int option"

definition truthy_or :: "int option \<Rightarrow> int \<Rightarrow> int" where
  "truthy_or a b = (case a of None \<Rightarrow> b | Some n \<Rightarrow> if n = 0 then b else n)"

text \<open>
  Modelled from the spec: \<open>buildOutgoingRequest\<close> (defined by the subclasses, not
  part of the sources): "given admission options (checksum kind, TTL, tracing
  context), returns a request object carrying a unique ID". The ID it assigns is
  an argument here.
\<close>

definition buildOutgoingRequest :: "nat \<Rightarrow> int \<Rightarrow> request" where
  "buildOutgoingRequest new_id options_ttl = \<lparr>req_id = new_id, ttl = options_ttl\<rparr>"

text \<open>\<open>request(options)\<close>; a falsy \<open>options\<close> is \<open>None\<close> and becomes \<open>{}\<close>.\<close>

definition request :: "options option \<Rightarrow> nat \<Rightarrow> int \<Rightarrow> conn \<Rightarrow> request \<times> conn" where
  "request options0 new_id now s =
     (let options = (case options0 of None \<Rightarrow> \<lparr>timeout = None\<rparr> | Some opts \<Rightarrow> opts);
          options_ttl = truthy_or (timeout options) DEFAULT_OUTGOING_REQ_TIMEOUT;
          req = buildOutgoingRequest new_id options_ttl;
          i = req_id req
      in (req,
          s\<lparr>outOps := store (outOps s) i (Some (TChannelClientOp req now)),
            pending_out := pending_out s + 1\<rparr>))"

subsection \<open>Incoming requests\<close>

text \<open>
  \<open>handleCallRequest\<close> creates a closure over \<open>id\<close>, \<open>op\<close> and \<open>done\<close>, shared by
  \<open>buildResponse\<close> and \<open>opDone\<close>. \<open>op.res\<close> is read and written through the
  closure's \<open>op\<close> only; the table's entry is compared with it by identity. The
  bookkeeping is what is modelled: stamping the request, subscribing \<open>onReqError\<close>
  and scheduling the handler with \<open>process.nextTick\<close> touch neither the tables nor
  the counters.
\<close>

record call_env =
  env_id :: nat
  env_op :: server_op
  env_done :: bool

definition handleCallRequest :: "request \<Rightarrow> int \<Rightarrow> conn \<Rightarrow> call_env \<times> conn" where
  "handleCallRequest req now s =
     (let i = req_id req;
          s1 = s\<lparr>pending_in := pending_in s + 1\<rparr>;
          op = TChannelServerOp (next_oid s1) now req;
          s2 = s1\<lparr>inOps := store (inOps s1) i (Some op), next_oid := next_oid s1 + 1\<rparr>
      in (\<lparr>env_id = i, env_op = op, env_done = False\<rparr>, s2))"

text \<open>
  \<open>buildResponse(options)\<close>; \<open>built\<close> is the object that
  \<open>self.buildOutgoingResponse(req, options)\<close> returns.
\<close>

definition attach :: "response \<Rightarrow> call_env \<Rightarrow> call_env" where
  "attach built env =
     (let res = built\<lparr>res_on := res_on built @
                  [(''finish'', OpDone), (''errored'', OpDone), (''span'', HandleSpanFromRes)]\<rparr>
      in env\<lparr>env_op := (env_op env)\<lparr>sop_res := Some res\<rparr>\<rparr>)"

text \<open>
  The value returned is the new \<open>op.res\<close>, the \<open>sop_res\<close> of the closure's \<open>op\<close>
  afterwards.
\<close>

definition buildResponse :: "response \<Rightarrow> call_env \<Rightarrow> call_env outcome" where
  "buildResponse built env =
     (case sop_res (env_op env) of
        None \<Rightarrow> Returns (attach built env)
      | Some r \<Rightarrow>
          if res_state r \<noteq> Initial
          then Throws (ResponseAlreadyStarted (res_state r)) env
          else Returns (attach built env))"

text \<open>\<open>self.inOps[id] !== op\<close>\<close>

definition not_same_op :: "server_op option \<Rightarrow> server_op \<Rightarrow> bool" where
  "not_same_op slot op = (case slot of None \<Rightarrow> True | Some op' \<Rightarrow> sop_oid op' \<noteq> sop_oid op)"

definition opDone :: "call_env \<Rightarrow> conn \<Rightarrow> call_env \<times> conn" where
  "opDone env s =
     (if env_done env then (env, s)
      else (let env1 = env\<lparr>env_done := True\<rparr> in
            if not_same_op (lookup (inOps s) (env_id env1)) (env_op env1)
            then (env1, s\<lparr>logs := logs s @ [(Warn, ''mismatched opDone callback'')]\<rparr>)
            else (env1, s\<lparr>inOps := delete (inOps s) (env_id env1),
                          pending_in := pending_in s - 1\<rparr>)))"

section \<open>Histories of a connection\<close>

text \<open>
  The calls that reach a connection from outside, with what the collaborators
  supply to each: the clock reading, the random draw, the ID the request builder
  assigns. \<open>Finalize n\<close> is \<open>opDone\<close> of the \<open>n\<close>-th call of \<open>handleCallRequest\<close>,
  fired by its response's \<open>finish\<close> or \<open>errored\<close>; \<open>OnError\<close> is the owner registering
  a listener for \<open>'error'\<close>. A call that throws leaves the state it reached.
\<close>

datatype event =
    Request "options option" nat int
  | HandleCallRequest request int
  | PopOutOp nat
  | TimeoutCheck int real
  | Finalize nat
  | ResetAll "js_error option"
  | OnError

record world =
  w_conn :: conn
  w_envs :: "call_env list"

fun step :: "event \<Rightarrow> world \<Rightarrow> world" where
  "step (Request opts i now) w = w\<lparr>w_conn := snd (request opts i now (w_conn w))\<rparr>"
| "step (HandleCallRequest req now) w =
     (let (env, s) = handleCallRequest req now (w_conn w)
      in \<lparr>w_conn = s, w_envs = w_envs w @ [env]\<rparr>)"
| "step (PopOutOp i) w = w\<lparr>w_conn := snd (popOutOp i (w_conn w))\<rparr>"
| "step (TimeoutCheck now r) w = w\<lparr>w_conn := state_of (onTimeoutCheck now r (w_conn w))\<rparr>"
| "step (Finalize n) w =
     (if n < length (w_envs w)
      then (let (env, s) = opDone (w_envs w ! n) (w_conn w)
            in \<lparr>w_conn = s, w_envs = (w_envs w)[n := env]\<rparr>)
      else w)"
| "step (ResetAll err) w = w\<lparr>w_conn := state_of (resetAll err (w_conn w))\<rparr>"
| "step OnError w = w\<lparr>w_conn := on_error (w_conn w)\<rparr>"

fun run :: "event list \<Rightarrow> world \<Rightarrow> world" where
  "run [] w = w"
| "run (e # es) w = run es (step e w)"

text \<open>An operation ID is fresh when its table has no such key at registration.\<close>

fun fresh :: "event \<Rightarrow> world \<Rightarrow> bool" where
  "fresh (Request opts i now) w = (i \<notin> set (Object_keys (outOps (w_conn w))))"
| "fresh (HandleCallRequest req now) w = (req_id req \<notin> set (Object_keys (inOps (w_conn w))))"
| "fresh e w = True"

fun fresh_ids :: "event list \<Rightarrow> world \<Rightarrow> bool" where
  "fresh_ids [] w = True"
| "fresh_ids (e # es) w = (fresh e w \<and> fresh_ids es (step e w))"

definition initial :: "real \<Rightarrow> real \<Rightarrow> real \<Rightarrow> world" where
  "initial base fuzz r = \<lparr>w_conn = TChannelConnectionBase base fuzz r, w_envs = []\<rparr>"

section \<open>Notions and sample data used in the statements\<close>

text \<open>
  The invariant carried through every call: the counters are the table sizes, both
  tables are objects (each key once), and no outgoing slot holds \<open>undefined\<close>.
\<close>

definition consistent :: "conn \<Rightarrow> bool" where
  "consistent s =
     (pending_out s = int (length (outOps s)) \<and> pending_in s = int (length (inOps s))
      \<and> wf_table (outOps s) \<and> wf_table (inOps s) \<and> live (outOps s))"

text \<open>The errors a teardown delivers: one per outgoing operation, in key order.\<close>

definition reset_deliveries :: "client_op table \<Rightarrow> js_error \<Rightarrow> (recipient \<times> js_error) list" where
  "reset_deliveries t err = map (\<lambda>op. (OutReq (op_req op), err)) (records t)"

text \<open>
  The state a first teardown builds before it drains the tables; and the condition
  under which it goes on to drain them: it has no \<open>'error'\<close> to emit, or the emit
  finds a listener.
\<close>

definition reset_begun :: "js_error option \<Rightarrow> conn \<Rightarrow> conn" where
  "reset_begun err0 s0 =
     (let s = clearTimeoutTimer s0; err = reset_error err0;
          s2 = s\<lparr>closing := True,
                 logs := logs s @ [(if isError err then Warn else Info, ''resetting connection'')]\<rparr>
      in if isError err then s2\<lparr>emitted := emitted s2 @ [ErrorEvent err]\<rparr> else s2)"

definition heard :: "js_error option \<Rightarrow> conn \<Rightarrow> bool" where
  "heard err s =
     (err_type (reset_error err) = Some ''tchannel.socket-closed'' \<or> 0 < error_listeners s)"

text \<open>
  A history that registers, pops, sweeps (one outgoing and one incoming operation
  expire), reuses the incoming ID 7 after the sweep removed it, finalizes the stale
  and the live closure, and registers again.
\<close>

definition sample_history :: "event list" where
  "sample_history =
     [Request (Some \<lparr>timeout = Some 50\<rparr>) 1 0,
      HandleCallRequest \<lparr>req_id = 7, ttl = 30\<rparr> 0,
      Request None 2 10,
      PopOutOp 2,
      TimeoutCheck 60 (1 / 2),
      HandleCallRequest \<lparr>req_id = 7, ttl = 30\<rparr> 61,
      Finalize 0,
      Finalize 1,
      Request None 3 70,
      HandleCallRequest \<lparr>req_id = 9, ttl = 30\<rparr> 71]"

text \<open>
  A connection with two outgoing operations and one incoming operation pending, and
  the error that \<open>close\<close> resets with.
\<close>

definition busy :: conn where
  "busy = w_conn (run [Request (Some \<lparr>timeout = Some 50\<rparr>) 1 0,
                       Request None 2 0,
                       HandleCallRequest \<lparr>req_id = 7, ttl = 30\<rparr> 0] (initial 1000 100 0))"

definition local_close :: js_error where
  "local_close = SocketClosedError ''local close''"



text \<open>
  What a sweep of the outgoing table does to a table without \<open>undefined\<close> slots
  and without operations already flagged \<open>timedOut\<close>: the operations whose age
  exceeds their time budget are removed, each of them is sent a timeout error, and
  the others are kept.
\<close>

definition expired :: "int \<Rightarrow> client_op \<Rightarrow> bool" where
  "expired now op = (now - op_start op > ttl (op_req op))"

definition timeout_delivery :: "int \<Rightarrow> client_op \<Rightarrow> recipient \<times> js_error" where
  "timeout_delivery now op =
     (OutReq (op_req op),
      TimeoutError (req_id (op_req op)) (op_start op) (now - op_start op) (ttl (op_req op)))"

definition kept :: "int \<Rightarrow> nat \<times> client_op option \<Rightarrow> bool" where
  "kept now e = (case snd e of None \<Rightarrow> True | Some op \<Rightarrow> \<not> expired now op)"

definition unflagged :: "client_op table \<Rightarrow> bool" where
  "unflagged t = list_all (\<lambda>op. \<not> timedOut op) (records t)"

text \<open>The fields that the loop over the outgoing table never writes.\<close>

definition untouched :: "conn \<Rightarrow> conn \<Rightarrow> bool" where
  "untouched s s' =
     (timeoutCheckInterval s' = timeoutCheckInterval s \<and> timeoutFuzz s' = timeoutFuzz s
      \<and> timer s' = timer s \<and> closing s' = closing s \<and> emitted s' = emitted s
      \<and> scheduled s' = scheduled s \<and> cleared s' = cleared s \<and> next_oid s' = next_oid s
      \<and> error_listeners s' = error_listeners s
      \<and> inOps s' = inOps s \<and> outOps s' = outOps s)"

text \<open>
  What holds of every state that a history reaches, whether its IDs are fresh or
  not: the tables are objects, the outgoing table holds only operations, none of
  them flagged, and a closing connection has no timer armed.
\<close>

definition sound :: "conn \<Rightarrow> bool" where
  "sound s =
     (wf_table (outOps s) \<and> live (outOps s) \<and> unflagged (outOps s) \<and> wf_table (inOps s)
      \<and> (closing s \<longrightarrow> timer s = None))"



text \<open>The busy connection after \<open>close\<close>, and a history that ends in a teardown.\<close>

definition shut :: conn where
  "shut = state_of (resetAll (Some local_close) busy)"

definition closed_history :: "event list" where
  "closed_history =
     [Request (Some \<lparr>timeout = Some 50\<rparr>) 1 0,
      HandleCallRequest \<lparr>req_id = 7, ttl = 30\<rparr> 0,
      ResetAll (Some local_close)]"

text \<open>
  The closure and state that \<open>handleCallRequest\<close> returns for a request with ID 7 on
  a new connection; and the connection after a sweep at time 60 has removed that
  operation and a second request with ID 7 has been registered.
\<close>

definition served :: "call_env \<times> conn" where
  "served = handleCallRequest \<lparr>req_id = 7, ttl = 30\<rparr> 0 (TChannelConnectionBase 1000 100 0)"

definition reused :: conn where
  "reused = snd (handleCallRequest \<lparr>req_id = 7, ttl = 30\<rparr> 61
                   (state_of (onTimeoutCheck 60 0 (snd served))))"

text \<open>
  Two responses as the response builder returns them, in their initial state; and
  the closure of above once its response has left the initial state.
\<close>

definition first_res :: response where
  "first_res = \<lparr>res_oid = 1, res_state = Initial, res_on = []\<rparr>"

definition second_res :: response where
  "second_res = \<lparr>res_oid = 2, res_state = Initial, res_on = []\<rparr>"

definition streaming :: call_env where
  "streaming = (fst served)\<lparr>env_op := (env_op (fst served))
                 \<lparr>sop_res := Some \<lparr>res_oid = 1, res_state = Later 1, res_on = []\<rparr>\<rparr>\<rparr>"

section \<open>Facts about operation tables\<close>

lemma keys_store: "set (Object_keys (store t k v)) = insert k (set (Object_keys t))"
  by (induction t) (force simp: Object_keys_def)+

lemma wf_store: "wf_table t \<Longrightarrow> wf_table (store t k v)"
proof (induction t)
  case Nil
  then show ?case by (simp add: wf_table_def Object_keys_def)
next
  case (Cons e t)
  obtain k' v' where e: "e = (k', v')" by (cases e)
  have tl: "wf_table t" using Cons.prems by (simp add: wf_table_def Object_keys_def)
  have below: "\<forall>x \<in> set (Object_keys t). k' < x"
    using Cons.prems e by (simp add: wf_table_def Object_keys_def)
  show ?case
  proof (cases "k < k'")
    case True
    then show ?thesis using Cons.prems e by (auto simp: wf_table_def Object_keys_def)
  next
    case False
    show ?thesis
    proof (cases "k = k'")
      case True
      then show ?thesis using Cons.prems e by (auto simp: wf_table_def Object_keys_def)
    next
      case ne: False
      have "k' < k" using False ne by simp
      moreover have "wf_table (store t k v)" using Cons.IH tl .
      moreover have "set (Object_keys (store t k v)) = insert k (set (Object_keys t))"
        by (rule keys_store)
      ultimately show ?thesis using e False ne below
        by (auto simp: wf_table_def Object_keys_def)
    qed
  qed
qed

lemma length_store_fresh: "k \<notin> set (Object_keys t) \<Longrightarrow> length (store t k v) = Suc (length t)"
  by (induction t) (auto simp: Object_keys_def)

lemma live_store: "live t \<Longrightarrow> live (store t k (Some v))"
  by (induction t) (auto simp: live_def)

lemma wf_delete: "wf_table t \<Longrightarrow> wf_table (delete t k)"
  by (simp add: wf_table_def Object_keys_def delete_def sorted_wrt_map sorted_wrt_filter)

lemma live_delete: "live t \<Longrightarrow> live (delete t k)"
  by (simp add: live_def delete_def list_all_iff)

lemma wf_distinct: "wf_table t \<Longrightarrow> distinct (Object_keys t)"
  by (simp add: wf_table_def strict_sorted_iff[symmetric] distinct_map) (metis strict_sorted_iff)

lemma delete_absent: "k \<notin> fst ` set t \<Longrightarrow> delete t k = t"
  by (induction t) (auto simp: delete_def)

lemma length_delete_distinct:
  "distinct (map fst t) \<Longrightarrow> k \<in> fst ` set t \<Longrightarrow> Suc (length (delete t k)) = length t"
proof (induction t)
  case Nil
  then show ?case by simp
next
  case (Cons e t)
  show ?case
  proof (cases "fst e = k")
    case True
    then have "k \<notin> fst ` set t" using Cons.prems(1) by auto
    then have "delete t k = t" by (rule delete_absent)
    then show ?thesis using True by (simp add: delete_def)
  next
    case False
    then have "k \<in> fst ` set t" using Cons.prems(2) by auto
    then have "Suc (length (delete t k)) = length t" using Cons.IH Cons.prems(1) by simp
    then show ?thesis using False by (simp add: delete_def)
  qed
qed

lemma keys_delete: "set (Object_keys (delete t k)) = set (Object_keys t) - {k}"
  by (auto simp: Object_keys_def delete_def)

lemma lookup_key: "lookup t k = Some v \<Longrightarrow> k \<in> set (Object_keys t)"
  by (auto simp: lookup_def Object_keys_def split: option.splits dest: map_of_SomeD intro: rev_image_eqI)

lemma lookup_live:
  assumes "live t" "k \<in> set (Object_keys t)"
  shows "lookup t k \<noteq> None"
proof -
  from assms(2) obtain slot where m: "map_of t k = Some slot"
    by (auto simp: Object_keys_def) (metis map_of_eq_None_iff not_None_eq fst_conv image_eqI)
  then have "(k, slot) \<in> set t" by (rule map_of_SomeD)
  with assms(1) have "slot \<noteq> None" by (auto simp: live_def list_all_iff)
  with m show ?thesis by (simp add: lookup_def)
qed

section \<open>Admission: the time budget of a new outgoing operation\<close>

lemma lookup_store: "lookup (store t k v) k = v"
  by (induction t) (auto simp: lookup_def)

text \<open>
  C10. \<open>request(options)\<close> registers, under the ID of the request it built, an
  operation on that request started at the current time, and the request's \<open>ttl\<close>
  is \<open>options.timeout\<close> when that is truthy and the default 2000 otherwise (absent
  options, absent timeout, or a timeout of 0).
\<close>

theorem request_ttl:
  "lookup (outOps (snd (request opts i now s))) i
     = Some (TChannelClientOp (fst (request opts i now s)) now)
   \<and> ttl (fst (request opts i now s))
     = (case opts of
          None \<Rightarrow> 2000
        | Some given \<Rightarrow>
            (case timeout given of
               None \<Rightarrow> 2000
             | Some n \<Rightarrow> if n = 0 then 2000 else n))"
  by (simp add: request_def truthy_or_def buildOutgoingRequest_def
      DEFAULT_OUTGOING_REQ_TIMEOUT_def Let_def lookup_store split: option.splits)

theorem request_ttl_witness:
  "ttl (fst (request (Some \<lparr>timeout = Some 0\<rparr>) 7 100 (TChannelConnectionBase 1000 100 0))) = 2000
   \<and> ttl (fst (request (Some \<lparr>timeout = Some 50\<rparr>) 7 100 (TChannelConnectionBase 1000 100 0))) = 50
   \<and> ttl (fst (request None 7 100 (TChannelConnectionBase 1000 100 0))) = 2000"
  using request_ttl [of "Some \<lparr>timeout = Some 0\<rparr>" 7 100 "TChannelConnectionBase 1000 100 0"]
    request_ttl [of "Some \<lparr>timeout = Some 50\<rparr>" 7 100 "TChannelConnectionBase 1000 100 0"]
    request_ttl [of None 7 100 "TChannelConnectionBase 1000 100 0"]
  by simp

section \<open>The pending counters and the tables\<close>

lemma length_delete:
  "wf_table t \<Longrightarrow> k \<in> set (Object_keys t) \<Longrightarrow> int (length (delete t k)) = int (length t) - 1"
  using length_delete_distinct [of t k] wf_distinct [of t] by (simp add: Object_keys_def)

lemma checkIn_loop_count:
  "distinct ks \<Longrightarrow> set ks \<subseteq> set (Object_keys ops) \<Longrightarrow> wf_table ops \<Longrightarrow>
   checkIn_loop ks now (ops, s) = (ops', s') \<Longrightarrow>
   wf_table ops' \<and> pending_in s' - int (length ops') = pending_in s - int (length ops)
   \<and> s' = s\<lparr>pending_in := pending_in s'\<rparr>"
proof (induction ks arbitrary: ops s)
  case Nil
  then show ?case by simp
next
  case (Cons i ks)
  have i: "i \<in> set (Object_keys ops)" "i \<notin> set ks" "distinct ks" "set ks \<subseteq> set (Object_keys ops)"
    using Cons.prems by auto
  show ?case
  proof (cases "lookup ops i")
    case None
    then have "checkIn_loop ks now (ops, s) = (ops', s')" using Cons.prems(4) by simp
    from Cons.IH [OF i(3) i(4) Cons.prems(3) this] show ?thesis .
  next
    case (Some op)
    show ?thesis
    proof (cases "now - sop_start op > ttl (sop_req op)")
      case True
      let ?ops = "delete ops i" and ?s = "s\<lparr>pending_in := pending_in s - 1\<rparr>"
      have run: "checkIn_loop ks now (?ops, ?s) = (ops', s')"
        using Cons.prems(4) Some True by (simp add: Let_def)
      have sub: "set ks \<subseteq> set (Object_keys ?ops)" using i by (auto simp: keys_delete)
      have wf: "wf_table ?ops" using Cons.prems(3) by (rule wf_delete)
      from Cons.IH [OF i(3) sub wf run]
      have ih: "wf_table ops'" "pending_in s' - int (length ops') = pending_in ?s - int (length ?ops)"
        "s' = ?s\<lparr>pending_in := pending_in s'\<rparr>" by auto
      have "int (length ?ops) = int (length ops) - 1" using Cons.prems(3) i(1) by (rule length_delete)
      then show ?thesis using ih by simp
    next
      case False
      then have "checkIn_loop ks now (ops, s) = (ops', s')"
        using Cons.prems(4) Some by (simp add: Let_def)
      from Cons.IH [OF i(3) i(4) Cons.prems(3) this] show ?thesis .
    qed
  qed
qed

lemma checkOut_loop_count:
  "distinct ks \<Longrightarrow> set ks \<subseteq> set (Object_keys ops) \<Longrightarrow> wf_table ops \<Longrightarrow> live ops \<Longrightarrow>
   checkOut_loop ks now (ops, s) = res \<Longrightarrow>
   returned res \<and> wf_table (fst (state_of res)) \<and> live (fst (state_of res))
   \<and> pending_out (snd (state_of res)) - int (length (fst (state_of res)))
       = pending_out s - int (length ops)
   \<and> inOps (snd (state_of res)) = inOps s \<and> pending_in (snd (state_of res)) = pending_in s
   \<and> outOps (snd (state_of res)) = outOps s"
proof (induction ks arbitrary: ops s)
  case Nil
  then show ?case by auto
next
  case (Cons i ks)
  have i: "i \<in> set (Object_keys ops)" "i \<notin> set ks" "distinct ks" "set ks \<subseteq> set (Object_keys ops)"
    using Cons.prems by auto
  from lookup_live [OF Cons.prems(4) i(1)] obtain op where op: "lookup ops i = Some op" by auto
  let ?ops = "delete ops i"
  have sub: "set ks \<subseteq> set (Object_keys ?ops)" using i by (auto simp: keys_delete)
  have wf: "wf_table ?ops" using Cons.prems(3) by (rule wf_delete)
  have lv: "live ?ops" using Cons.prems(4) by (rule live_delete)
  have len: "int (length ?ops) = int (length ops) - 1" using Cons.prems(3) i(1) by (rule length_delete)
  show ?case
  proof (cases "timedOut op")
    case True
    let ?s = "s\<lparr>pending_out := pending_out s - 1,
                logs := logs s @ [(Warn, ''lingering timed-out outgoing operation'')]\<rparr>"
    have run: "checkOut_loop ks now (?ops, ?s) = res" using Cons.prems(5) op True by simp
    from Cons.IH [OF i(3) sub wf lv run] len show ?thesis by simp
  next
    case False
    show ?thesis
    proof (cases "now - op_start op > ttl (op_req op)")
      case True
      let ?s = "snd (onReqTimeout op now (s\<lparr>pending_out := pending_out s - 1\<rparr>))"
      have run: "checkOut_loop ks now (?ops, ?s) = res"
        using Cons.prems(5) op False True by (simp add: Let_def)
      from Cons.IH [OF i(3) sub wf lv run] len show ?thesis by (simp add: onReqTimeout_def)
    next
      case nexp: False
      have run: "checkOut_loop ks now (ops, s) = res"
        using Cons.prems(5) op False nexp by (simp add: Let_def)
      from Cons.IH [OF i(3) i(4) Cons.prems(3) Cons.prems(4) run] show ?thesis .
    qed
  qed
qed

lemma onTimeoutCheck_consistent:
  assumes "consistent s"
  shows "consistent (state_of (onTimeoutCheck now r s))"
proof (cases "closing s \<or> lastTimeoutTime s \<noteq> 0")
  case True
  then show ?thesis using assms by (auto simp: onTimeoutCheck_def consistent_def)
next
  case False
  have wfo: "wf_table (outOps s)" and lvo: "live (outOps s)" and wfi: "wf_table (inOps s)"
    using assms by (auto simp: consistent_def)
  define res where "res = checkOut_loop (Object_keys (outOps s)) now (outOps s, s)"
  have out: "returned res" "wf_table (fst (state_of res))" "live (fst (state_of res))"
    "pending_out (snd (state_of res)) - int (length (fst (state_of res)))
       = pending_out s - int (length (outOps s))"
    "inOps (snd (state_of res)) = inOps s" "pending_in (snd (state_of res)) = pending_in s"
    using checkOut_loop_count [OF wf_distinct [OF wfo] subset_refl wfo lvo res_def [symmetric]]
    by auto
  obtain ops s1 where res: "res = Returns (ops, s1)"
    using out(1) by (cases res) auto
  define s2 where "s2 = s1\<lparr>outOps := ops\<rparr>"
  have i2: "inOps s2 = inOps s" "pending_in s2 = pending_in s" "outOps s2 = ops"
    "pending_out s2 = int (length ops)"
    using out(4,5,6) res assms by (simp_all add: s2_def consistent_def)
  obtain iops s3 where inl: "checkIn_loop (Object_keys (inOps s)) now (inOps s, s2) = (iops, s3)"
    by (cases "checkIn_loop (Object_keys (inOps s)) now (inOps s, s2)")
  from checkIn_loop_count [OF wf_distinct [OF wfi] subset_refl wfi inl]
  have inn: "wf_table iops" "pending_in s3 - int (length iops) = pending_in s2 - int (length (inOps s))"
    "s3 = s2\<lparr>pending_in := pending_in s3\<rparr>" by auto
  have eq: "onTimeoutCheck now r s = Returns (startTimeoutTimer r (s3\<lparr>inOps := iops\<rparr>))"
    using False res inl out(5)
    by (simp add: onTimeoutCheck_def checkOutOpsForTimeout_def checkInOpsForTimeout_def
        res_def [symmetric] s2_def [symmetric] Let_def)
  have o3: "outOps s3 = ops" "pending_out s3 = int (length ops)"
    by (subst inn(3), simp add: i2)+
  have "pending_in s3 = int (length iops)" using inn(2) i2 assms by (simp add: consistent_def)
  then show ?thesis
    using eq o3 inn(1) out(2,3) res by (simp add: consistent_def startTimeoutTimer_def)
qed

lemma delete_head: "k \<notin> fst ` set t \<Longrightarrow> delete ((k, v) # t) k = t"
  using delete_absent [of k t] by (simp add: delete_def)

lemma eachInOp_all:
  "distinct (map fst t) \<Longrightarrow> inOps s = t \<Longrightarrow> eachInOp (Object_keys t) s = s\<lparr>inOps := []\<rparr>"
proof (induction t arbitrary: s)
  case Nil
  then show ?case by (simp add: Object_keys_def)
next
  case (Cons e t)
  obtain k v where e: "e = (k, v)" by (cases e)
  have "delete (inOps s) k = t" using Cons.prems e by (simp add: delete_head)
  then have "eachInOp (Object_keys (e # t)) s = eachInOp (Object_keys t) (s\<lparr>inOps := t\<rparr>)"
    using e by (simp add: Object_keys_def)
  also have "\<dots> = s\<lparr>inOps := t\<rparr>\<lparr>inOps := []\<rparr>"
    using Cons.prems by (intro Cons.IH) simp_all
  finally show ?case by simp
qed

lemma eachOutOp_all:
  "distinct (map fst t) \<Longrightarrow> live t \<Longrightarrow> outOps s = t \<Longrightarrow>
   eachOutOp (Object_keys t) err s
     = Returns (s\<lparr>outOps := [], delivered := delivered s @ reset_deliveries t err\<rparr>)"
proof (induction t arbitrary: s)
  case Nil
  then show ?case by (simp add: Object_keys_def reset_deliveries_def records_def List.map_filter_simps)
next
  case (Cons e t)
  from Cons.prems(2) obtain k op where e: "e = (k, Some op)"
    by (cases e) (auto simp: live_def)
  have del: "delete (outOps s) k = t" using Cons.prems e by (simp add: delete_head)
  have look: "lookup (outOps s) k = Some op" using Cons.prems(3) e by (simp add: lookup_def)
  let ?s = "s\<lparr>outOps := t, delivered := delivered s @ [(OutReq (op_req op), err)]\<rparr>"
  have "eachOutOp (Object_keys (e # t)) err s = eachOutOp (Object_keys t) err ?s"
    using e del look by (simp add: Object_keys_def Let_def)
  also have "\<dots> = Returns (?s\<lparr>outOps := [], delivered := delivered ?s @ reset_deliveries t err\<rparr>)"
    using Cons.prems by (intro Cons.IH) (simp_all add: live_def)
  finally show ?case
    using e by (simp add: reset_deliveries_def records_def List.map_filter_simps)
qed

lemma clearTimeoutTimer_fields:
  "inOps (clearTimeoutTimer s) = inOps s" "outOps (clearTimeoutTimer s) = outOps s"
  "pending_in (clearTimeoutTimer s) = pending_in s" "pending_out (clearTimeoutTimer s) = pending_out s"
  "closing (clearTimeoutTimer s) = closing s" "lastTimeoutTime (clearTimeoutTimer s) = lastTimeoutTime s"
  "emitted (clearTimeoutTimer s) = emitted s" "delivered (clearTimeoutTimer s) = delivered s"
  "logs (clearTimeoutTimer s) = logs s" "scheduled (clearTimeoutTimer s) = scheduled s"
  "timer (clearTimeoutTimer s) = None" "error_listeners (clearTimeoutTimer s) = error_listeners s"
  by (simp_all add: clearTimeoutTimer_def split: option.splits)

lemma resetAll_closing: "closing s \<Longrightarrow> resetAll err s = Returns (clearTimeoutTimer s)"
  by (simp add: resetAll_def Let_def clearTimeoutTimer_def split: option.splits)

lemma reset_begun_fields:
  "inOps (reset_begun err s) = inOps s" "outOps (reset_begun err s) = outOps s"
  "pending_in (reset_begun err s) = pending_in s" "pending_out (reset_begun err s) = pending_out s"
  "delivered (reset_begun err s) = delivered s" "closing (reset_begun err s)"
  "timer (reset_begun err s) = None" "error_listeners (reset_begun err s) = error_listeners s"
  "logs (reset_begun err s)
     = logs s @ [(if isError (reset_error err) then Warn else Info, ''resetting connection'')]"
  "emitted (reset_begun err s)
     = emitted s @ (if isError (reset_error err) then [ErrorEvent (reset_error err)] else [])"
  by (simp_all add: reset_begun_def Let_def clearTimeoutTimer_fields)

lemma resetAll_unfold:
  assumes "\<not> closing s"
  shows "resetAll err s =
     (if isError (reset_error err) \<and> error_listeners s = 0
      then Throws (reset_error err) (reset_begun err s)
      else (case eachOutOp (Object_keys (outOps s)) (reset_error err)
                   (eachInOp (Object_keys (inOps s)) (reset_begun err s)) of
              Throws e s5 \<Rightarrow> Throws e s5
            | Returns s5 \<Rightarrow> Returns (s5\<lparr>pending_in := 0, pending_out := 0\<rparr>)))"
  using assms
  by (simp add: resetAll_def Let_def reset_begun_def emit_error_def clearTimeoutTimer_fields)

lemma resetAll_unheard:
  assumes "\<not> closing s" "\<not> heard err s"
  shows "resetAll err s = Throws (reset_error err) (reset_begun err s)"
  using assms(2) by (simp add: resetAll_unfold [OF assms(1)] heard_def isError_def)

lemma resetAll_first:
  assumes "\<not> closing s" "wf_table (inOps s)" "wf_table (outOps s)" "live (outOps s)"
    and "heard err s"
  shows "resetAll err s =
     Returns ((reset_begun err s)\<lparr>inOps := [], outOps := [],
        delivered := delivered s @ reset_deliveries (outOps s) (reset_error err),
        pending_in := 0, pending_out := 0\<rparr>)"
proof -
  define b where "b = reset_begun err s"
  have b: "inOps b = inOps s" "outOps b = outOps s" "delivered b = delivered s"
    by (simp_all add: b_def reset_begun_fields)
  have di: "distinct (map fst (inOps s))" and do: "distinct (map fst (outOps s))"
    using wf_distinct [OF assms(2)] wf_distinct [OF assms(3)] by (simp_all add: Object_keys_def)
  have ins: "eachInOp (Object_keys (inOps s)) b = b\<lparr>inOps := []\<rparr>"
    using di b(1) by (rule eachInOp_all)
  have outs: "eachOutOp (Object_keys (outOps s)) (reset_error err) (b\<lparr>inOps := []\<rparr>)
      = Returns (b\<lparr>inOps := []\<rparr>\<lparr>outOps := [],
          delivered := delivered (b\<lparr>inOps := []\<rparr>) @ reset_deliveries (outOps s) (reset_error err)\<rparr>)"
    using do assms(4) by (rule eachOutOp_all) (simp add: b)
  have "resetAll err s =
     (case eachOutOp (Object_keys (outOps s)) (reset_error err) (eachInOp (Object_keys (inOps s)) b) of
        Throws e s5 \<Rightarrow> Throws e s5
      | Returns s5 \<Rightarrow> Returns (s5\<lparr>pending_in := 0, pending_out := 0\<rparr>))"
    using assms(5) by (auto simp: resetAll_unfold [OF assms(1)] b_def heard_def isError_def)
  then show ?thesis using ins outs b by (simp add: b_def [symmetric])
qed

lemma request_consistent:
  "consistent s \<Longrightarrow> i \<notin> set (Object_keys (outOps s)) \<Longrightarrow> consistent (snd (request opts i now s))"
  by (simp add: request_def consistent_def Let_def buildOutgoingRequest_def
      wf_store live_store length_store_fresh)

lemma handleCallRequest_consistent:
  "consistent s \<Longrightarrow> req_id req \<notin> set (Object_keys (inOps s)) \<Longrightarrow>
   consistent (snd (handleCallRequest req now s))"
  by (simp add: handleCallRequest_def consistent_def Let_def wf_store length_store_fresh)

lemma popOutOp_consistent: "consistent s \<Longrightarrow> consistent (snd (popOutOp i s))"
  by (auto simp: popOutOp_def consistent_def wf_delete live_delete length_delete
      dest: lookup_key split: option.splits)

lemma opDone_consistent: "consistent s \<Longrightarrow> consistent (snd (opDone env s))"
  by (auto simp: opDone_def consistent_def not_same_op_def Let_def wf_delete length_delete
      dest: lookup_key split: option.splits)

lemma resetAll_consistent:
  assumes "consistent s"
  shows "consistent (state_of (resetAll err s))"
proof (cases "closing s")
  case True
  then show ?thesis using assms
    by (simp add: resetAll_closing consistent_def clearTimeoutTimer_fields)
next
  case False
  show ?thesis
  proof (cases "heard err s")
    case True
    with False show ?thesis using assms
      by (simp add: resetAll_first consistent_def) (simp add: wf_table_def live_def Object_keys_def)
  next
    case unheard: False
    with False show ?thesis using assms
      by (simp add: resetAll_unheard consistent_def reset_begun_fields)
  qed
qed

lemma on_error_consistent: "consistent s \<Longrightarrow> consistent (on_error s)"
  by (simp add: on_error_def consistent_def)

lemma step_consistent:
  "consistent (w_conn w) \<Longrightarrow> fresh e w \<Longrightarrow> consistent (w_conn (step e w))"
  by (cases e)
    (simp_all add: request_consistent handleCallRequest_consistent popOutOp_consistent
      opDone_consistent onTimeoutCheck_consistent resetAll_consistent on_error_consistent
      split: prod.splits,
     (metis handleCallRequest_consistent snd_conv, metis opDone_consistent snd_conv))

lemma run_consistent:
  "consistent (w_conn w) \<Longrightarrow> fresh_ids es w \<Longrightarrow> consistent (w_conn (run es w))"
  by (induction es arbitrary: w) (simp_all add: step_consistent)

lemma initial_consistent: "consistent (w_conn (initial base fuzz r))"
  by (simp add: initial_def TChannelConnectionBase_def startTimeoutTimer_def consistent_def
      wf_table_def live_def Object_keys_def)

lemmas model_defs =
  initial_def TChannelConnectionBase_def startTimeoutTimer_def clearTimeoutTimer_def
  request_def handleCallRequest_def popOutOp_def onTimeoutCheck_def opDone_def resetAll_def
  checkOutOpsForTimeout_def checkInOpsForTimeout_def onReqTimeout_def
  Object_keys_def lookup_def delete_def truthy_or_def buildOutgoingRequest_def
  TChannelClientOp_def TChannelServerOp_def DEFAULT_OUTGOING_REQ_TIMEOUT_def
  getTimeoutDelay_def timeoutDelay_def Math_floor_def Math_round_def
  not_same_op_def reset_error_def isError_def emit_error_def on_error_def Let_def

text \<open>
  C1. In every state reached from a new connection by a history of \<open>request\<close>,
  \<open>handleCallRequest\<close>, \<open>popOutOp\<close>, timeout sweeps, \<open>opDone\<close> and \<open>resetAll\<close>
  calls in which every registered ID is fresh in its table at registration,
  \<open>pending.out\<close> is the number of entries of the outgoing table and \<open>pending.in\<close>
  the number of entries of the incoming table.
\<close>

theorem pending_counts_tables:
  assumes "fresh_ids es (initial base fuzz r)"
  shows "pending_out (w_conn (run es (initial base fuzz r)))
           = int (length (outOps (w_conn (run es (initial base fuzz r)))))
       \<and> pending_in (w_conn (run es (initial base fuzz r)))
           = int (length (inOps (w_conn (run es (initial base fuzz r)))))"
  using run_consistent [OF initial_consistent assms] by (simp add: consistent_def)

theorem pending_counts_tables_witness:
  "fresh_ids sample_history (initial 1000 100 0)
   \<and> pending_out (w_conn (run sample_history (initial 1000 100 0))) = 1
   \<and> length (outOps (w_conn (run sample_history (initial 1000 100 0)))) = 1
   \<and> pending_in (w_conn (run sample_history (initial 1000 100 0))) = 1
   \<and> length (inOps (w_conn (run sample_history (initial 1000 100 0)))) = 1"
proof -
  have f: "fresh_ids sample_history (initial 1000 100 0)"
    by (simp add: sample_history_def model_defs)
  have l: "length (outOps (w_conn (run sample_history (initial 1000 100 0)))) = 1"
    "length (inOps (w_conn (run sample_history (initial 1000 100 0)))) = 1"
    by (simp_all add: sample_history_def model_defs)
  from pending_counts_tables [OF f] f l show ?thesis by simp
qed

section \<open>Teardown\<close>

lemma eachInOp_frame:
  "closing (eachInOp ks s) = closing s \<and> timer (eachInOp ks s) = timer s
   \<and> logs (eachInOp ks s) = logs s \<and> emitted (eachInOp ks s) = emitted s"
  by (induction ks arbitrary: s) simp_all

lemma eachOutOp_frame:
  "closing (state_of (eachOutOp ks err s)) = closing s
   \<and> timer (state_of (eachOutOp ks err s)) = timer s
   \<and> logs (state_of (eachOutOp ks err s)) = logs s
   \<and> emitted (state_of (eachOutOp ks err s)) = emitted s"
  by (induction ks arbitrary: s) (simp_all add: Let_def split: option.splits)

lemma resetAll_open:
  assumes "\<not> closing s"
  shows "closing (state_of (resetAll err s)) \<and> timer (state_of (resetAll err s)) = None
    \<and> logs (state_of (resetAll err s))
        = logs s @ [(if isError (reset_error err) then Warn else Info, ''resetting connection'')]
    \<and> emitted (state_of (resetAll err s))
        = emitted s @ (if isError (reset_error err) then [ErrorEvent (reset_error err)] else [])"
proof -
  define b where "b = reset_begun err s"
  define d where "d = eachOutOp (Object_keys (outOps s)) (reset_error err) (eachInOp (Object_keys (inOps s)) b)"
  have b: "closing b" "timer b = None"
    "logs b = logs s @ [(if isError (reset_error err) then Warn else Info, ''resetting connection'')]"
    "emitted b = emitted s @ (if isError (reset_error err) then [ErrorEvent (reset_error err)] else [])"
    by (simp_all add: b_def reset_begun_fields)
  have d: "closing (state_of d) = closing b" "timer (state_of d) = timer b"
    "logs (state_of d) = logs b" "emitted (state_of d) = emitted b"
    using eachOutOp_frame [of "Object_keys (outOps s)" "reset_error err" "eachInOp (Object_keys (inOps s)) b"]
      eachInOp_frame [of "Object_keys (inOps s)" b]
    by (simp_all add: d_def)
  show ?thesis
  proof (cases "isError (reset_error err) \<and> error_listeners s = 0")
    case True
    then have "resetAll err s = Throws (reset_error err) b"
      by (simp add: resetAll_unfold [OF assms] b_def)
    then show ?thesis using b by simp
  next
    case False
    then have "resetAll err s =
       (case d of Throws e s5 \<Rightarrow> Throws e s5
        | Returns s5 \<Rightarrow> Returns (s5\<lparr>pending_in := 0, pending_out := 0\<rparr>))"
      by (auto simp: resetAll_unfold [OF assms] b_def d_def)
    then show ?thesis using b d by (cases d) simp_all
  qed
qed

lemma clearTimeoutTimer_idle: "timer s = None \<Longrightarrow> clearTimeoutTimer s = s"
  by (simp add: clearTimeoutTimer_def)

lemma resetAll_settled:
  "closing (state_of (resetAll err s)) \<and> timer (state_of (resetAll err s)) = None"
proof (cases "closing s")
  case True
  then show ?thesis by (simp add: resetAll_closing clearTimeoutTimer_fields)
next
  case False
  then show ?thesis using resetAll_open [of s err] by simp
qed

lemma busy_eval:
  "busy = \<lparr>timeoutCheckInterval = 1000, timeoutFuzz = 100, timer = Some 0,
       inOps = [(7, Some \<lparr>sop_oid = 0, sop_start = 0, sop_req = \<lparr>req_id = 7, ttl = 30\<rparr>, sop_res = None\<rparr>)],
       outOps = [(1, Some \<lparr>op_req = \<lparr>req_id = 1, ttl = 50\<rparr>, op_start = 0, timedOut = False\<rparr>),
                 (2, Some \<lparr>op_req = \<lparr>req_id = 2, ttl = 2000\<rparr>, op_start = 0, timedOut = False\<rparr>)],
       pending_in = 1, pending_out = 2, lastTimeoutTime = 0, closing = False,
       emitted = [], delivered = [], logs = [], scheduled = [950], cleared = [], next_oid = 1, error_listeners = 0\<rparr>"
  by (simp add: busy_def model_defs)




text \<open>
  C5. The first \<open>resetAll(err)\<close> writes one log line: at info severity when the
  error's type is \<open>'tchannel.socket-closed'\<close>, and then it publishes no \<open>error\<close>
  notification; at warn severity for every other error, and then it publishes
  exactly one \<open>error\<close> notification carrying the error. An absent \<open>err\<close> is
  replaced by the plain error \<open>unknown connection reset\<close>, which is of the second
  sort. The log line and the call of \<open>self.emit\<close> come before anything that can
  throw, so this holds whether or not a listener is registered.
\<close>

theorem resetAll_classifies:
  assumes "\<not> closing s"
  shows "logs (state_of (resetAll err s))
      = logs s @ [(if err_type (reset_error err) = Some ''tchannel.socket-closed''
                   then Info else Warn, ''resetting connection'')]
    \<and> emitted (state_of (resetAll err s))
      = emitted s @ (if err_type (reset_error err) = Some ''tchannel.socket-closed''
                     then [] else [ErrorEvent (reset_error err)])
    \<and> err_type (reset_error None) \<noteq> Some ''tchannel.socket-closed''
    \<and> reset_error None = Error ''unknown connection reset''
    \<and> (\<forall>e. reset_error (Some e) = e)"
  using resetAll_open [OF assms, of err] by (simp add: isError_def reset_error_def)

theorem resetAll_classifies_witness:
  "\<not> closing busy
   \<and> logs (state_of (resetAll (Some local_close) busy)) = [(Info, ''resetting connection'')]
   \<and> emitted (state_of (resetAll (Some local_close) busy)) = []
   \<and> logs (state_of (resetAll None busy)) = [(Warn, ''resetting connection'')]
   \<and> emitted (state_of (resetAll None busy)) = [ErrorEvent (Error ''unknown connection reset'')]"
proof -
  have o: "\<not> closing busy" "logs busy = []" "emitted busy = []" by (simp_all add: busy_eval)
  from resetAll_classifies [OF o(1), of "Some local_close"] resetAll_classifies [OF o(1), of None] o
  show ?thesis by (simp add: local_close_def reset_error_def)
qed

section \<open>Timeout sweeps\<close>

lemma untouched_refl: "untouched s s"
  by (simp add: untouched_def)

lemma untouched_trans: "untouched s t \<Longrightarrow> untouched t u \<Longrightarrow> untouched s u"
  by (simp add: untouched_def)

lemma checkOut_loop_untouched:
  "untouched s (snd (state_of (checkOut_loop ks now (ops, s))))
   \<and> pending_in (snd (state_of (checkOut_loop ks now (ops, s)))) = pending_in s"
proof (induction ks arbitrary: ops s)
  case Nil
  show ?case by (simp add: untouched_def)
next
  case (Cons i ks)
  show ?case
  proof (cases "lookup ops i")
    case None
    then show ?thesis by (simp add: untouched_def)
  next
    case (Some op)
    let ?a = "s\<lparr>pending_out := pending_out s - 1,
                logs := logs s @ [(Warn, ''lingering timed-out outgoing operation'')]\<rparr>"
    let ?b = "snd (onReqTimeout op now (s\<lparr>pending_out := pending_out s - 1\<rparr>))"
    have a: "untouched s ?a" "pending_in ?a = pending_in s" by (simp_all add: untouched_def)
    have b: "untouched s ?b" "pending_in ?b = pending_in s"
      by (simp_all add: untouched_def onReqTimeout_def)
    show ?thesis
      using Some Cons.IH [where ops = "delete ops i" and s = ?a]
        Cons.IH [where ops = "delete ops i" and s = ?b] Cons.IH [where ops = ops and s = s] a b
      by (auto simp: Let_def intro: untouched_trans)
  qed
qed

lemma checkIn_loop_frame:
  "snd (checkIn_loop ks now (ops, s)) = s\<lparr>pending_in := pending_in (snd (checkIn_loop ks now (ops, s)))\<rparr>"
proof (induction ks arbitrary: ops s)
  case Nil
  show ?case by simp
next
  case (Cons i ks)
  show ?case
  proof (cases "lookup ops i")
    case None
    then show ?thesis using Cons.IH [where ops = ops and s = s] by simp
  next
    case (Some op)
    let ?a = "s\<lparr>pending_in := pending_in s - 1\<rparr>"
    have "snd (checkIn_loop ks now (delete ops i, ?a))
        = s\<lparr>pending_in := pending_in (snd (checkIn_loop ks now (delete ops i, ?a)))\<rparr>"
      by (subst Cons.IH [where ops = "delete ops i" and s = ?a]) simp
    then show ?thesis using Some Cons.IH [where ops = ops and s = s] by (simp add: Let_def)
  qed
qed

lemma lookup_mid:
  "k \<notin> fst ` set pre \<Longrightarrow> lookup (pre @ (k, v) # rest) k = v"
proof -
  assume "k \<notin> fst ` set pre"
  then have "map_of pre k = None" by (simp add: map_of_eq_None_iff)
  then show ?thesis by (simp add: lookup_def map_add_def)
qed

lemma delete_mid:
  "k \<notin> fst ` set pre \<Longrightarrow> k \<notin> fst ` set rest \<Longrightarrow> delete (pre @ (k, v) # rest) k = pre @ rest"
  using delete_absent [of k pre] delete_absent [of k rest] by (simp add: delete_def)

lemma checkOut_loop_sweep:
  assumes "distinct (map fst (pre @ rest))" "live rest" "unflagged rest"
  shows "returned (checkOut_loop (map fst rest) now (pre @ rest, s))
    \<and> fst (state_of (checkOut_loop (map fst rest) now (pre @ rest, s))) = pre @ filter (kept now) rest
    \<and> pending_out (snd (state_of (checkOut_loop (map fst rest) now (pre @ rest, s))))
        = pending_out s - int (length (filter (expired now) (records rest)))
    \<and> delivered (snd (state_of (checkOut_loop (map fst rest) now (pre @ rest, s))))
        = delivered s @ map (timeout_delivery now) (filter (expired now) (records rest))
    \<and> lastTimeoutTime (snd (state_of (checkOut_loop (map fst rest) now (pre @ rest, s))))
        = (if filter (expired now) (records rest) = [] then lastTimeoutTime s else now)
    \<and> logs (snd (state_of (checkOut_loop (map fst rest) now (pre @ rest, s)))) = logs s"
  using assms
proof (induction rest arbitrary: pre s)
  case Nil
  show ?case by (simp add: records_def)
next
  case (Cons e rest)
  from Cons.prems(2) obtain k op where e: "e = (k, Some op)" by (cases e) (auto simp: live_def)
  have k: "k \<notin> fst ` set pre" "k \<notin> fst ` set rest" using Cons.prems(1) e by auto
  have lv: "live rest" using Cons.prems(2) by (simp add: live_def)
  have fl: "\<not> timedOut op" "unflagged rest"
    using Cons.prems(3) e by (simp_all add: unflagged_def records_def)
  have look: "lookup (pre @ e # rest) k = Some op" using k(1) e by (simp add: lookup_mid)
  have del: "delete (pre @ e # rest) k = pre @ rest" using k e by (simp add: delete_mid)
  have recs: "records (e # rest) = op # records rest"
    using e by (simp add: records_def)
  show ?case
  proof (cases "expired now op")
    case True
    let ?s = "snd (onReqTimeout op now (s\<lparr>pending_out := pending_out s - 1\<rparr>))"
    have d: "distinct (map fst (pre @ rest))" using Cons.prems(1) by simp
    have step: "checkOut_loop (map fst (e # rest)) now (pre @ e # rest, s)
        = checkOut_loop (map fst rest) now (pre @ rest, ?s)"
      using e look del fl(1) True by (simp add: Let_def expired_def)
    have s: "pending_out ?s = pending_out s - 1"
      "delivered ?s = delivered s @ [timeout_delivery now op]"
      "lastTimeoutTime ?s = now" "logs ?s = logs s"
      by (simp_all add: onReqTimeout_def timeout_delivery_def)
    show ?thesis
      unfolding step recs
      using Cons.IH [OF d lv fl(2), where s = ?s] True
      by (simp add: s kept_def e)
  next
    case False
    have d: "distinct (map fst ((pre @ [e]) @ rest))" using Cons.prems(1) by simp
    have step: "checkOut_loop (map fst (e # rest)) now (pre @ e # rest, s)
        = checkOut_loop (map fst rest) now ((pre @ [e]) @ rest, s)"
      using e look fl(1) False by (simp add: Let_def expired_def)
    show ?thesis
      unfolding step recs
      using Cons.IH [OF d lv fl(2), where s = s] False
      by (simp add: kept_def e)
  qed
qed

lemma onTimeoutCheck_sweeps:
  assumes "\<not> closing s" "lastTimeoutTime s = 0"
    "wf_table (outOps s)" "live (outOps s)" "unflagged (outOps s)"
  shows "returned (onTimeoutCheck now r s)
    \<and> outOps (state_of (onTimeoutCheck now r s)) = filter (kept now) (outOps s)
    \<and> pending_out (state_of (onTimeoutCheck now r s))
        = pending_out s - int (length (filter (expired now) (records (outOps s))))
    \<and> delivered (state_of (onTimeoutCheck now r s))
        = delivered s @ map (timeout_delivery now) (filter (expired now) (records (outOps s)))
    \<and> lastTimeoutTime (state_of (onTimeoutCheck now r s))
        = (if filter (expired now) (records (outOps s)) = [] then 0 else now)
    \<and> scheduled (state_of (onTimeoutCheck now r s)) = scheduled s @ [getTimeoutDelay r s]
    \<and> timer (state_of (onTimeoutCheck now r s)) = Some (length (scheduled s))
    \<and> \<not> closing (state_of (onTimeoutCheck now r s))
    \<and> emitted (state_of (onTimeoutCheck now r s)) = emitted s
    \<and> logs (state_of (onTimeoutCheck now r s)) = logs s
    \<and> inOps (state_of (onTimeoutCheck now r s))
        = fst (checkIn_loop (Object_keys (inOps s)) now (inOps s,
            (snd (state_of (checkOut_loop (Object_keys (outOps s)) now (outOps s, s))))
              \<lparr>outOps := filter (kept now) (outOps s)\<rparr>))"
proof -
  define res where "res = checkOut_loop (Object_keys (outOps s)) now (outOps s, s)"
  have d: "distinct (map fst ([] @ outOps s))"
    using wf_distinct [OF assms(3)] by (simp add: Object_keys_def)
  have sw: "returned res" "fst (state_of res) = filter (kept now) (outOps s)"
    "pending_out (snd (state_of res))
       = pending_out s - int (length (filter (expired now) (records (outOps s))))"
    "delivered (snd (state_of res))
       = delivered s @ map (timeout_delivery now) (filter (expired now) (records (outOps s)))"
    "lastTimeoutTime (snd (state_of res))
       = (if filter (expired now) (records (outOps s)) = [] then 0 else now)"
    "logs (snd (state_of res)) = logs s"
    using checkOut_loop_sweep [OF d assms(4,5), of now s] assms(2)
    by (simp_all add: res_def Object_keys_def)
  have un: "untouched s (snd (state_of res))"
    using checkOut_loop_untouched [of s ks now "outOps s" for ks] by (simp add: res_def)
  obtain ops s1 where res: "res = Returns (ops, s1)" using sw(1) by (cases res) auto
  define s2 where "s2 = s1\<lparr>outOps := filter (kept now) (outOps s)\<rparr>"
  define fin where "fin = checkIn_loop (Object_keys (inOps s)) now (inOps s, s2)"
  have fr: "snd fin = s2\<lparr>pending_in := pending_in (snd fin)\<rparr>"
    unfolding fin_def by (rule checkIn_loop_frame)
  have i1: "inOps s1 = inOps s" using un res by (simp add: untouched_def)
  have eq: "onTimeoutCheck now r s = Returns (startTimeoutTimer r ((snd fin)\<lparr>inOps := fst fin\<rparr>))"
    using assms(1,2) res sw(2) i1
    by (simp add: onTimeoutCheck_def checkOutOpsForTimeout_def checkInOpsForTimeout_def
        res_def [symmetric] Let_def s2_def [symmetric] fin_def [symmetric] split: prod.splits)
  have f: "outOps (snd fin) = filter (kept now) (outOps s)" "pending_out (snd fin) = pending_out s1"
    "delivered (snd fin) = delivered s1" "lastTimeoutTime (snd fin) = lastTimeoutTime s1"
    "scheduled (snd fin) = scheduled s1" "closing (snd fin) = closing s1"
    "emitted (snd fin) = emitted s1" "logs (snd fin) = logs s1"
    "timeoutCheckInterval (snd fin) = timeoutCheckInterval s1" "timeoutFuzz (snd fin) = timeoutFuzz s1"
    by (subst fr, simp add: s2_def)+
  show ?thesis
    using eq f sw un res assms(1)
    by (simp add: startTimeoutTimer_def getTimeoutDelay_def untouched_def fin_def s2_def res_def)
qed

lemma set_store: "set (store t k v) \<subseteq> insert (k, v) (set t)"
  by (induction t) (auto split: if_splits)

lemma set_records: "set (records t) = {op. \<exists>k. (k, Some op) \<in> set t}"
  by (induction t) (auto simp: records_def split: option.splits)

lemma unflagged_iff: "unflagged t = (\<forall>k op. (k, Some op) \<in> set t \<longrightarrow> \<not> timedOut op)"
  by (auto simp: unflagged_def list_all_iff set_records)

lemma unflagged_store:
  "unflagged t \<Longrightarrow> \<not> timedOut op \<Longrightarrow> unflagged (store t k (Some op))"
  using set_store [of t k "Some op"] by (auto simp: unflagged_iff)

lemma unflagged_sub: "unflagged t \<Longrightarrow> set t' \<subseteq> set t \<Longrightarrow> unflagged t'"
  by (auto simp: unflagged_iff)

lemma live_filter: "live t \<Longrightarrow> live (filter P t)"
  by (simp add: live_def list_all_iff)

lemma wf_filter: "wf_table t \<Longrightarrow> wf_table (filter P t)"
  by (simp add: wf_table_def Object_keys_def sorted_wrt_map sorted_wrt_filter)

lemma request_sound: "sound s \<Longrightarrow> sound (snd (request opts i now s))"
  by (simp add: request_def sound_def Let_def wf_store live_store unflagged_store TChannelClientOp_def)

lemma handleCallRequest_sound: "sound s \<Longrightarrow> sound (snd (handleCallRequest req now s))"
  by (simp add: handleCallRequest_def sound_def Let_def wf_store)

lemma unflagged_delete: "unflagged t \<Longrightarrow> unflagged (delete t k)"
  by (rule unflagged_sub) (auto simp: delete_def)

lemma popOutOp_sound: "sound s \<Longrightarrow> sound (snd (popOutOp i s))"
  by (simp add: popOutOp_def sound_def wf_delete live_delete unflagged_delete split: option.splits)

lemma opDone_sound: "sound s \<Longrightarrow> sound (snd (opDone env s))"
  by (simp add: opDone_def sound_def Let_def wf_delete)

lemma resetAll_sound:
  assumes "sound s"
  shows "sound (state_of (resetAll err s))"
proof (cases "closing s")
  case True
  then show ?thesis using assms by (simp add: resetAll_closing sound_def clearTimeoutTimer_fields)
next
  case False
  have "closing (state_of (resetAll err s))" "timer (state_of (resetAll err s)) = None"
    using resetAll_settled [of err s] by simp_all
  moreover have "wf_table (outOps (state_of (resetAll err s)))
      \<and> live (outOps (state_of (resetAll err s)))
      \<and> unflagged (outOps (state_of (resetAll err s)))
      \<and> wf_table (inOps (state_of (resetAll err s)))"
  proof (cases "heard err s")
    case True
    then have "inOps (state_of (resetAll err s)) = []" "outOps (state_of (resetAll err s)) = []"
      using False assms by (simp_all add: resetAll_first sound_def)
    then show ?thesis
      by (simp add: wf_table_def live_def unflagged_def records_def Object_keys_def)
  next
    case unheard: False
    then show ?thesis
      using False assms by (simp add: resetAll_unheard reset_begun_fields sound_def)
  qed
  ultimately show ?thesis by (simp add: sound_def)
qed

lemma on_error_sound: "sound s \<Longrightarrow> sound (on_error s)"
  by (simp add: on_error_def sound_def)

lemma onTimeoutCheck_sound:
  assumes "sound s"
  shows "sound (state_of (onTimeoutCheck now r s))"
proof (cases "closing s \<or> lastTimeoutTime s \<noteq> 0")
  case True
  then show ?thesis using assms by (auto simp: onTimeoutCheck_def sound_def)
next
  case False
  have h: "\<not> closing s" "lastTimeoutTime s = 0" "wf_table (outOps s)" "live (outOps s)"
    "unflagged (outOps s)" "wf_table (inOps s)"
    using False assms by (simp_all add: sound_def)
  note sw = onTimeoutCheck_sweeps [OF h(1-5), of now r]
  define s2 where "s2 = (snd (state_of (checkOut_loop (Object_keys (outOps s)) now (outOps s, s))))
              \<lparr>outOps := filter (kept now) (outOps s)\<rparr>"
  obtain iops s3 where inl: "checkIn_loop (Object_keys (inOps s)) now (inOps s, s2) = (iops, s3)"
    by (cases "checkIn_loop (Object_keys (inOps s)) now (inOps s, s2)")
  have "wf_table iops"
    using checkIn_loop_count [OF wf_distinct [OF h(6)] subset_refl h(6) inl] by simp
  then have "wf_table (inOps (state_of (onTimeoutCheck now r s)))"
    using sw inl by (simp add: s2_def)
  moreover have "unflagged (filter (kept now) (outOps s))"
    using h(5) by (rule unflagged_sub) simp
  ultimately show ?thesis
    using sw h by (simp add: sound_def wf_filter live_filter)
qed

lemma step_sound: "sound (w_conn w) \<Longrightarrow> sound (w_conn (step e w))"
  by (cases e)
    (simp_all add: request_sound popOutOp_sound onTimeoutCheck_sound resetAll_sound
      on_error_sound split: prod.splits,
     (metis handleCallRequest_sound snd_conv, metis opDone_sound snd_conv))

lemma run_sound: "sound (w_conn w) \<Longrightarrow> sound (w_conn (run es w))"
  by (induction es arbitrary: w) (simp_all add: step_sound)

lemma initial_sound: "sound (w_conn (initial base fuzz r))"
  by (simp add: initial_def TChannelConnectionBase_def startTimeoutTimer_def sound_def
      wf_table_def live_def unflagged_def records_def Object_keys_def)

lemma reachable_sound: "sound (w_conn (run es (initial base fuzz r)))"
  using initial_sound by (rule run_sound)









text \<open>
  C3. After a \<open>resetAll\<close>, a further \<open>resetAll\<close> (with any error) returns the state
  unchanged: no table, counter, flag, notification, delivery or log line changes.
  On any state with \<open>closing\<close> true, \<open>resetAll\<close> only cancels the sweep timer if one
  is still armed, which is in no state reached from a new connection: there it
  returns the state itself.
\<close>

theorem resetAll_idempotent:
  "resetAll err2 (state_of (resetAll err s)) = Returns (state_of (resetAll err s))
   \<and> (closing s \<longrightarrow>
        resetAll err s = Returns (clearTimeoutTimer s)
        \<and> inOps (state_of (resetAll err s)) = inOps s
        \<and> outOps (state_of (resetAll err s)) = outOps s
        \<and> pending_in (state_of (resetAll err s)) = pending_in s
        \<and> pending_out (state_of (resetAll err s)) = pending_out s
        \<and> closing (state_of (resetAll err s))
        \<and> lastTimeoutTime (state_of (resetAll err s)) = lastTimeoutTime s
        \<and> emitted (state_of (resetAll err s)) = emitted s
        \<and> delivered (state_of (resetAll err s)) = delivered s
        \<and> logs (state_of (resetAll err s)) = logs s)
   \<and> (closing s \<and> timer s = None \<longrightarrow> resetAll err s = Returns s)
   \<and> (closing (w_conn (run es (initial base fuzz r))) \<longrightarrow>
        resetAll err (w_conn (run es (initial base fuzz r)))
          = Returns (w_conn (run es (initial base fuzz r))))"
proof -
  let ?s = "state_of (resetAll err s)"
  have "closing ?s" "timer ?s = None" using resetAll_settled [of err s] by simp_all
  then have "resetAll err2 ?s = Returns ?s"
    by (simp add: resetAll_closing clearTimeoutTimer_idle)
  moreover have "closing (w_conn (run es (initial base fuzz r))) \<longrightarrow>
      timer (w_conn (run es (initial base fuzz r))) = None"
    using reachable_sound [of es base fuzz r] by (simp add: sound_def)
  ultimately show ?thesis
    by (auto simp: resetAll_closing clearTimeoutTimer_fields clearTimeoutTimer_idle)
qed

theorem resetAll_idempotent_witness:
  "closing shut \<and> timer shut = None
   \<and> logs shut = [(Info, ''resetting connection'')]
   \<and> resetAll None shut = Returns shut
   \<and> resetAll None (state_of (resetAll (Some local_close) busy)) = Returns shut
   \<and> closing (w_conn (run closed_history (initial 1000 100 0)))
   \<and> resetAll None (w_conn (run closed_history (initial 1000 100 0)))
       = Returns (w_conn (run closed_history (initial 1000 100 0)))"
proof -
  have c: "closing shut" "timer shut = None" "logs shut = [(Info, ''resetting connection'')]"
    by (simp_all add: shut_def busy_eval local_close_def resetAll_def clearTimeoutTimer_def
        Object_keys_def lookup_def delete_def reset_error_def isError_def Let_def)
  have r: "closing (w_conn (run closed_history (initial 1000 100 0)))"
    by (simp add: closed_history_def local_close_def model_defs)
  from resetAll_idempotent [of None "Some local_close" busy closed_history 1000 100 0]
    resetAll_idempotent [of None None shut] c r
  show ?thesis by (simp add: shut_def [symmetric])
qed

text \<open>
  C8. \<open>checkInOpsForTimeout\<close> passes over a slot holding \<open>undefined\<close> and goes on
  with the remaining keys. \<open>checkOutOpsForTimeout\<close> does not: it reads
  \<open>op.timedOut\<close> before it tests \<open>op === undefined\<close>, so on such a slot it throws
  and the remaining keys are never visited.
\<close>

theorem checkOutOpsForTimeout_undefined_slot:
  "checkOutOpsForTimeout [(1, None), (2, Some op)] now s
     = Throws (TypeError ''Cannot read property 'timedOut' of undefined'')
         ([(1, None), (2, Some op)], s)
   \<and> checkInOpsForTimeout [(1, None), (2, Some iop)] now s
     = (if now - sop_start iop > ttl (sop_req iop)
        then ([(1, None)], s\<lparr>pending_in := pending_in s - 1\<rparr>)
        else ([(1, None), (2, Some iop)], s))"
  by (simp add: checkOutOpsForTimeout_def checkInOpsForTimeout_def Object_keys_def lookup_def
      delete_def Let_def)

section \<open>Incoming operations\<close>

lemma served_eval:
  "served =
     (\<lparr>env_id = 7,
       env_op = \<lparr>sop_oid = 0, sop_start = 0, sop_req = \<lparr>req_id = 7, ttl = 30\<rparr>, sop_res = None\<rparr>,
       env_done = False\<rparr>,
      \<lparr>timeoutCheckInterval = 1000, timeoutFuzz = 100, timer = Some 0,
       inOps = [(7, Some \<lparr>sop_oid = 0, sop_start = 0, sop_req = \<lparr>req_id = 7, ttl = 30\<rparr>,
                          sop_res = None\<rparr>)],
       outOps = [], pending_in = 1, pending_out = 0, lastTimeoutTime = 0, closing = False,
       emitted = [], delivered = [], logs = [], scheduled = [950], cleared = [], next_oid = 1, error_listeners = 0\<rparr>)"
  by (simp add: served_def model_defs)

lemma reused_eval:
  "reused =
     \<lparr>timeoutCheckInterval = 1000, timeoutFuzz = 100, timer = Some 1,
      inOps = [(7, Some \<lparr>sop_oid = 1, sop_start = 61, sop_req = \<lparr>req_id = 7, ttl = 30\<rparr>,
                         sop_res = None\<rparr>)],
      outOps = [], pending_in = 1, pending_out = 0, lastTimeoutTime = 0, closing = False,
      emitted = [], delivered = [], logs = [], scheduled = [950, 950], cleared = [], next_oid = 2, error_listeners = 0\<rparr>"
  by (simp add: reused_def served_eval model_defs)

text \<open>
  C6. \<open>opDone\<close> leaves \<open>done\<close> set, and with \<open>done\<close> set it changes nothing, in
  whatever state it is called again. Its first call removes the entry and lowers
  \<open>pending.in\<close> by one when the incoming table maps the operation's ID to this very
  record; otherwise it only writes the warning \<open>mismatched opDone callback\<close>.
\<close>

theorem opDone_at_most_once:
  "env_done (fst (opDone env s))
   \<and> opDone (fst (opDone env s)) t = (fst (opDone env s), t)
   \<and> (env_done env \<longrightarrow> opDone env s = (env, s))
   \<and> (\<not> env_done env \<and> not_same_op (lookup (inOps s) (env_id env)) (env_op env) \<longrightarrow>
        snd (opDone env s) = s\<lparr>logs := logs s @ [(Warn, ''mismatched opDone callback'')]\<rparr>)
   \<and> (\<not> env_done env \<and> \<not> not_same_op (lookup (inOps s) (env_id env)) (env_op env) \<longrightarrow>
        snd (opDone env s)
          = s\<lparr>inOps := delete (inOps s) (env_id env), pending_in := pending_in s - 1\<rparr>)
   \<and> fst (opDone env s) = env\<lparr>env_done := True\<rparr>"
  by (simp add: opDone_def Let_def)

theorem opDone_at_most_once_witness:
  "\<not> env_done (fst served)
   \<and> \<not> not_same_op (lookup (inOps (snd served)) (env_id (fst served))) (env_op (fst served))
   \<and> pending_in (snd served) = 1
   \<and> snd (opDone (fst served) (snd served)) = (snd served)\<lparr>inOps := [], pending_in := 0\<rparr>
   \<and> env_done (fst (opDone (fst served) (snd served)))
   \<and> opDone (fst (opDone (fst served) (snd served))) (snd (opDone (fst served) (snd served)))
       = (fst (opDone (fst served) (snd served)), snd (opDone (fst served) (snd served)))
   \<and> not_same_op (lookup (inOps reused) (env_id (fst served))) (env_op (fst served))
   \<and> snd (opDone (fst served) reused)
       = reused\<lparr>logs := [(Warn, ''mismatched opDone callback'')]\<rparr>"
proof -
  have h1: "\<not> env_done (fst served)"
    and h2: "\<not> not_same_op (lookup (inOps (snd served)) (env_id (fst served))) (env_op (fst served))"
    and h3: "not_same_op (lookup (inOps reused) (env_id (fst served))) (env_op (fst served))"
    and h4: "pending_in (snd served) = 1"
    and h5: "logs reused = []"
    and h6: "delete (inOps (snd served)) (env_id (fst served)) = []"
    by (simp_all add: served_eval reused_eval not_same_op_def lookup_def delete_def)
  note live_call =
    opDone_at_most_once [of "fst served" "snd served" "snd (opDone (fst served) (snd served))"]
  note stale_call = opDone_at_most_once [of "fst served" reused reused]
  have a1: "env_done (fst (opDone (fst served) (snd served)))"
    using live_call by (rule conjunct1)
  have a2: "opDone (fst (opDone (fst served) (snd served))) (snd (opDone (fst served) (snd served)))
       = (fst (opDone (fst served) (snd served)), snd (opDone (fst served) (snd served)))"
    using live_call by (rule conjunct1 [OF conjunct2])
  have a3: "snd (opDone (fst served) (snd served)) = (snd served)\<lparr>inOps := [], pending_in := 0\<rparr>"
    using live_call h1 h2 h4 h6 by simp
  have a4: "snd (opDone (fst served) reused)
       = reused\<lparr>logs := [(Warn, ''mismatched opDone callback'')]\<rparr>"
    using stale_call h1 h3 h5 by simp
  show ?thesis by (intro conjI h1 h2 h3 h4 a1 a2 a3 a4)
qed

text \<open>
  C7, as amended. \<open>buildResponse\<close> throws \<open>ResponseAlreadyStarted\<close>, carrying the
  state, and changes nothing when the operation has a response that has left the
  state \<open>Initial\<close>. When the operation has no response, or has one still in the state
  \<open>Initial\<close>, it returns the newly built response, with \<open>finish\<close>, \<open>errored\<close> and
  \<open>span\<close> listeners registered, and makes it the operation's response.
\<close>

theorem buildResponse_guard:
  "(sop_res (env_op env) = Some cur \<and> res_state cur \<noteq> Initial \<longrightarrow>
      buildResponse built env = Throws (ResponseAlreadyStarted (res_state cur)) env)
   \<and> (sop_res (env_op env) = None \<or> (sop_res (env_op env) = Some cur \<and> res_state cur = Initial) \<longrightarrow>
      buildResponse built env = Returns (attach built env)
      \<and> sop_res (env_op (attach built env))
          = Some (built\<lparr>res_on := res_on built @
                [(''finish'', OpDone), (''errored'', OpDone), (''span'', HandleSpanFromRes)]\<rparr>))"
  by (auto simp: buildResponse_def attach_def Let_def)

theorem buildResponse_guard_witness:
  "sop_res (env_op streaming) = Some \<lparr>res_oid = 1, res_state = Later 1, res_on = []\<rparr>
   \<and> buildResponse second_res streaming = Throws (ResponseAlreadyStarted (Later 1)) streaming
   \<and> sop_res (env_op (fst served)) = None
   \<and> returned (buildResponse first_res (fst served))
   \<and> map_option res_oid (sop_res (env_op (state_of (buildResponse first_res (fst served))))) = Some 1"
proof -
  have h: "sop_res (env_op streaming) = Some \<lparr>res_oid = 1, res_state = Later 1, res_on = []\<rparr>"
    "res_state \<lparr>res_oid = 1, res_state = Later 1, res_on = []\<rparr> \<noteq> Initial"
    "sop_res (env_op (fst served)) = None"
    by (simp_all add: streaming_def served_eval)
  from buildResponse_guard [of streaming "\<lparr>res_oid = 1, res_state = Later 1, res_on = []\<rparr>" second_res]
    buildResponse_guard [of "fst served" first_res first_res] h
  show ?thesis by (simp add: first_res_def)
qed

text \<open>
  C7 as stated fails: a second \<open>buildResponse\<close> right after the first finds the
  first response still in the state \<open>Initial\<close>, returns, and replaces it by a second
  response object.
\<close>

theorem buildResponse_twice_returns:
  "returned (buildResponse first_res (fst served))
   \<and> returned (buildResponse second_res (state_of (buildResponse first_res (fst served))))
   \<and> map_option res_oid (sop_res (env_op (state_of (buildResponse first_res (fst served)))))
       = Some 1
   \<and> map_option res_oid
        (sop_res (env_op (state_of (buildResponse second_res
           (state_of (buildResponse first_res (fst served)))))))
       = Some 2"
  by (simp add: buildResponse_def attach_def served_eval first_res_def second_res_def Let_def)

section \<open>The sweep delay\<close>

text \<open>
  The numbers are taken as reals. The comment above \<open>getTimeoutDelay\<close> gives its
  range as \<open>base - fuzz / 2\<close> to \<open>base + fuzz / 2\<close>. For a fuzz width that is a whole
  number \<open>n \<ge> 0\<close>, any base interval and any draw \<open>r\<close> with \<open>0 \<le> r < 1\<close>, the delay
  is within that range.
\<close>

lemma getTimeoutDelay_range:
  assumes "timeoutFuzz s = real n" and "0 \<le> r" and "r < 1"
  shows "timeoutCheckInterval s - timeoutFuzz s / 2 \<le> getTimeoutDelay r s
    \<and> getTimeoutDelay r s \<le> timeoutCheckInterval s + timeoutFuzz s / 2"
proof -
  define k where "k = \<lfloor>r * real n\<rfloor>"
  define m where "m = \<lfloor>real_of_int k - real n / 2 + 1 / 2\<rfloor>"
  have k0: "0 \<le> k" using assms(2) by (simp add: k_def)
  have k1: "k \<le> int n - 1" if "0 < n"
  proof -
    have "r * real n < real n" using assms(3) that by simp
    then have "k < int n" unfolding k_def by (simp add: floor_less_iff)
    then show ?thesis by simp
  qed
  have kz: "k = 0" if "n = 0" using that by (simp add: k_def)
  have lo: "real_of_int m > real_of_int k - real n / 2 + 1 / 2 - 1"
    unfolding m_def by linarith
  have hi: "real_of_int m \<le> real_of_int k - real n / 2 + 1 / 2"
    unfolding m_def by linarith
  have "2 * real_of_int m > 2 * real_of_int k - real n - 1" using lo by simp
  then have "real_of_int (2 * m) > real_of_int (2 * k - int n - 1)" by simp
  then have "2 * m > 2 * k - int n - 1" by (simp only: of_int_less_iff)
  then have lo': "2 * m \<ge> - int n" using k0 by linarith
  have "2 * real_of_int m \<le> 2 * real_of_int k - real n + 1" using hi by simp
  then have "real_of_int (2 * m) \<le> real_of_int (2 * k - int n + 1)" by simp
  then have "2 * m \<le> 2 * k - int n + 1" by (simp only: of_int_le_iff)
  then have hi': "2 * m \<le> int n"
    using k1 kz by (cases "n = 0") auto
  have "real_of_int (2 * m) \<ge> real_of_int (- int n)" using lo' by (simp only: of_int_le_iff)
  then have a: "real_of_int m \<ge> - (real n / 2)" by simp
  have "real_of_int (2 * m) \<le> real_of_int (int n)" using hi' by (simp only: of_int_le_iff)
  then have b: "real_of_int m \<le> real n / 2" by simp
  have "getTimeoutDelay r s = timeoutCheckInterval s + real_of_int m"
    by (simp add: getTimeoutDelay_def timeoutDelay_def Math_round_def Math_floor_def assms(1)
        m_def k_def)
  then show ?thesis using a b assms(1) by simp
qed

lemma getTimeoutDelay_range_instance:
  "timeoutFuzz (TChannelConnectionBase 1000 100 0) = real 100
   \<and> getTimeoutDelay (999 / 1000) (TChannelConnectionBase 1000 100 0) = 1049
   \<and> timeoutCheckInterval (TChannelConnectionBase 1000 100 0)
        - timeoutFuzz (TChannelConnectionBase 1000 100 0) / 2
       \<le> getTimeoutDelay (999 / 1000) (TChannelConnectionBase 1000 100 0)
   \<and> getTimeoutDelay (999 / 1000) (TChannelConnectionBase 1000 100 0)
       \<le> timeoutCheckInterval (TChannelConnectionBase 1000 100 0)
        + timeoutFuzz (TChannelConnectionBase 1000 100 0) / 2"
proof -
  have h: "timeoutFuzz (TChannelConnectionBase 1000 100 0) = real 100"
    "(0::real) \<le> 999 / 1000" "(999 / 1000 :: real) < 1"
    by (simp_all add: TChannelConnectionBase_def startTimeoutTimer_def)
  have v: "getTimeoutDelay (999 / 1000) (TChannelConnectionBase 1000 100 0) = 1049"
    by (simp add: model_defs)
  show ?thesis using getTimeoutDelay_range [OF h] h(1) v by blast
qed

text \<open>
  C9. The claim, like the comment above \<open>getTimeoutDelay\<close>, puts the delay between
  \<open>base - fuzz / 2\<close> and \<open>base + fuzz / 2\<close> for every width and every draw. The code
  does not keep to it: with a base of 1000, a width of 1.5 and a draw of 0 the
  offset is \<open>Math.round(Math.floor(0) - 0.75)\<close>, which is \<open>-1\<close>, and the delay 999 is
  below the lower end 999.25.
\<close>

theorem getTimeoutDelay_fractional_fuzz:
  "getTimeoutDelay 0 (TChannelConnectionBase 1000 (3 / 2) 0) = 999
   \<and> timeoutCheckInterval (TChannelConnectionBase 1000 (3 / 2) 0)
        - timeoutFuzz (TChannelConnectionBase 1000 (3 / 2) 0) / 2 = 3997 / 4
   \<and> \<not> (timeoutCheckInterval (TChannelConnectionBase 1000 (3 / 2) 0)
           - timeoutFuzz (TChannelConnectionBase 1000 (3 / 2) 0) / 2
         \<le> getTimeoutDelay 0 (TChannelConnectionBase 1000 (3 / 2) 0))"
  by (simp add: model_defs)

end
